theory Spec2Isabelle
  imports Complex_Main "HOL-Library.AList"
begin

unbundle bit_operations_syntax

section \<open>Data model of \<^verbatim>\<open>kbd_release.py\<close>\<close>

text \<open>
  The exceptions the script can raise: \<^verbatim>\<open>termios.error\<close> from the terminal calls,
  \<^verbatim>\<open>OSError\<close> from \<^verbatim>\<open>fcntl\<close>, \<^verbatim>\<open>select\<close> and \<^verbatim>\<open>read\<close>, \<^verbatim>\<open>ValueError\<close> from
  \<^verbatim>\<open>select.select\<close> called with a negative timeout, \<^verbatim>\<open>KeyError\<close> from a plain
  \<^verbatim>\<open>dict\<close>, \<^verbatim>\<open>IndexError\<close> and \<^verbatim>\<open>ZeroDivisionError\<close> from the calibration arithmetic,
  \<^verbatim>\<open>EOFError\<close> from \<^verbatim>\<open>input\<close>.
\<close>

datatype error =
  TermiosError | OSError | ValueError | KeyError | IndexError | ZeroDivisionError | EOFError

text \<open>
  The callbacks of the script are \<^verbatim>\<open>lambda: None\<close> (what the default factory of lines 96-97
  produces) and \<^verbatim>\<open>lambda: print(s)\<close> (lines 100-104).
\<close>

datatype callback = Noop | Print string

text \<open>
  A hook table is a \<^verbatim>\<open>dict\<close> or a \<^verbatim>\<open>defaultdict\<close>: its entries, and the value its default
  factory produces (\<open>None\<close> for a plain \<^verbatim>\<open>dict\<close>).
\<close>

record hooks =
  entries :: "string \<rightharpoonup> callback"
  default_factory :: "callback option"

text \<open>
  \<^verbatim>\<open>h[k]\<close>: the entry; on a missing key the default factory's value, which
  \<^verbatim>\<open>defaultdict.__missing__\<close> stores in the table, or \<^verbatim>\<open>KeyError\<close> without a factory.
\<close>

definition getitem :: "hooks \<Rightarrow> string \<Rightarrow> error + (callback \<times> hooks)" where
  "getitem h k =
     (case entries h k of
        Some c \<Rightarrow> Inr (c, h)
      | None \<Rightarrow>
          (case default_factory h of
             None \<Rightarrow> Inl KeyError
           | Some c \<Rightarrow> Inr (c, h\<lparr>entries := (entries h)(k \<mapsto> c)\<rparr>)))"

text \<open>Every call of a hook is recorded: the table it came from, the key, the callback.\<close>

datatype hook_table = UpHooks | DownHooks

type_synonym call = "hook_table \<times> string \<times> callback"

fun printed :: "call list \<Rightarrow> string list" where
  "printed [] = []"
| "printed ((_, _, Noop) # cs) = printed cs"
| "printed ((_, _, Print s) # cs) = s # printed cs"

definition fired :: "hook_table \<Rightarrow> string \<Rightarrow> call list \<Rightarrow> nat" where
  "fired tb k cs = length (filter (\<lambda>c. fst c = tb \<and> fst (snd c) = k) cs)"

text \<open>
  The state of \<^verbatim>\<open>select_key_events\<close>. \<open>pressed\<close> is iterated (line 56), so it keeps its
  insertion order; \<open>is_first_keypress\<close> and \<open>current_delay_ms\<close> are \<^verbatim>\<open>defaultdict\<close>s that are
  only read and written by key, that is total functions starting at the default.
  \<open>term_attrs\<close> is what \<^verbatim>\<open>termios.tcgetattr\<close> reads and \<open>status_flags\<close> what
  \<^verbatim>\<open>fcntl(fd, F_GETFL)\<close> reads on standard input.
\<close>

record 'm state =
  pressed :: "(string \<times> bool) list"
  is_first_keypress :: "string \<Rightarrow> bool"
  current_delay_ms :: "string \<Rightarrow> int"
  down_hooks :: hooks
  calls :: "call list"
  term_attrs :: 'm
  status_flags :: int

record config =
  up_hooks :: hooks
  kbd_init_delay_ms :: int
  kbd_repeat_delay_ms :: int
  select_timeout_ms :: int

text \<open>\<^verbatim>\<open>pressed[k]\<close> as a value: \<^verbatim>\<open>defaultdict(bool)\<close> gives \<open>False\<close> for a missing key.\<close>

definition is_pressed :: "'m state \<Rightarrow> string \<Rightarrow> bool" where
  "is_pressed s k = (case map_of (pressed s) k of Some b \<Rightarrow> b | None \<Rightarrow> False)"

text \<open>The same lookup on the dictionary itself.\<close>

definition pressed_at :: "(string \<times> bool) list \<Rightarrow> string \<Rightarrow> bool" where
  "pressed_at al k = (case map_of al k of Some b \<Rightarrow> b | None \<Rightarrow> False)"

text \<open>Linux's value of \<^verbatim>\<open>os.O_NONBLOCK\<close>.\<close>

definition O_NONBLOCK :: int where
  "O_NONBLOCK = 2048"

text \<open>CTRL-D, the string \<^verbatim>\<open>'\004'\<close> of line 45.\<close>

definition sentinel :: string where
  "sentinel = [CHR 0x04]"

section \<open>The environment of one loop iteration\<close>

text \<open>
  What the outside world does during one iteration: which system calls raise, and what
  \<^verbatim>\<open>select\<close> and \<^verbatim>\<open>sys.stdin.read(3)\<close> deliver (\<open>None\<close>: the timeout passed with nothing
  to read; \<open>Some chars\<close>: standard input was ready and the read returned \<open>chars\<close>).
\<close>

datatype syscall = Tcgetattr | SetNonblocking | Setcbreak | Select | Read | Tcsetattr | SetBlocking

record env =
  failing :: "syscall set"
  arrival :: "string option"

definition key_arrives :: "string \<Rightarrow> env" where
  "key_arrives k = \<lparr>failing = {}, arrival = Some k\<rparr>"

definition quiet :: env where
  "quiet = \<lparr>failing = {}, arrival = None\<rparr>"

section \<open>\<^verbatim>\<open>select_key_events\<close>\<close>

text \<open>Lines 29-32: the timeout the loop runs with.\<close>

definition effective_timeout :: "int \<Rightarrow> int \<Rightarrow> int" where
  "effective_timeout repeat_ms timeout_ms =
     (if timeout_ms = - 1
      then (let t = repeat_ms div 4 in if t \<le> 0 then 1 else t)
      else timeout_ms)"

definition loop_config :: "hooks \<Rightarrow> int \<Rightarrow> int \<Rightarrow> int \<Rightarrow> config" where
  "loop_config up init_ms repeat_ms timeout_ms =
     \<lparr>up_hooks = up, kbd_init_delay_ms = init_ms, kbd_repeat_delay_ms = repeat_ms,
      select_timeout_ms = effective_timeout repeat_ms timeout_ms\<rparr>"

text \<open>Lines 33-35, with the caller's \<^verbatim>\<open>down_hooks\<close> and the terminal as it is found.\<close>

definition initial_state :: "hooks \<Rightarrow> 'm \<Rightarrow> int \<Rightarrow> 'm state" where
  "initial_state down m fl =
     \<lparr>pressed = [], is_first_keypress = (\<lambda>_. True), current_delay_ms = (\<lambda>_. 0),
      down_hooks = down, calls = [], term_attrs = m, status_flags = fl\<rparr>"

text \<open>
  Lines 47-54, for \<open>chars\<close> other than the sentinel. The read of \<^verbatim>\<open>pressed[chars]\<close> on
  line 48 inserts a missing key and line 51 overwrites it: \<open>AList.update\<close> appends a
  missing key and updates a present one in place.
\<close>

definition key_event :: "hooks \<Rightarrow> string \<Rightarrow> 'm state \<Rightarrow> 'm state" where
  "key_event up chars s =
     (let s1 = s\<lparr>current_delay_ms := (current_delay_ms s)(chars := 0)\<rparr> in
      if \<not> is_pressed s1 chars then
        (let s2 = (case entries up chars of
                     Some c \<Rightarrow> s1\<lparr>calls := calls s1 @ [(UpHooks, chars, c)]\<rparr>
                   | None \<Rightarrow> s1)
         in s2\<lparr>pressed := AList.update chars True (pressed s2),
                is_first_keypress := (is_first_keypress s2)(chars := True)\<rparr>)
      else s1\<lparr>is_first_keypress := (is_first_keypress s1)(chars := False)\<rparr>)"

text \<open>\<^verbatim>\<open>down_hooks[chars]()\<close> of lines 61 and 65.\<close>

definition call_down :: "string \<Rightarrow> 'm state \<Rightarrow> error option \<times> 'm state" where
  "call_down chars s =
     (case getitem (down_hooks s) chars of
        Inl e \<Rightarrow> (Some e, s)
      | Inr (c, h) \<Rightarrow> (None, s\<lparr>down_hooks := h, calls := calls s @ [(DownHooks, chars, c)]\<rparr>))"

text \<open>Lines 57-67: the body of the \<^verbatim>\<open>for\<close> loop for one key.\<close>

definition tick_key :: "config \<Rightarrow> string \<Rightarrow> 'm state \<Rightarrow> error option \<times> 'm state" where
  "tick_key cfg chars s =
     (if is_pressed s chars then
        (let s1 = s\<lparr>current_delay_ms :=
                      (current_delay_ms s)(chars := current_delay_ms s chars + select_timeout_ms cfg)\<rparr>
         in if is_first_keypress s1 chars then
              (if current_delay_ms s1 chars > kbd_init_delay_ms cfg then
                 (case call_down chars s1 of
                    (Some e, s2) \<Rightarrow> (Some e, s2)
                  | (None, s2) \<Rightarrow> (None, s2\<lparr>pressed := AList.update chars False (pressed s2)\<rparr>))
               else (None, s1))
            else
              (if current_delay_ms s1 chars > kbd_repeat_delay_ms cfg then
                 (case call_down chars s1 of
                    (Some e, s2) \<Rightarrow> (Some e, s2)
                  | (None, s2) \<Rightarrow>
                      (None, s2\<lparr>pressed := AList.update chars False (pressed s2),
                                 is_first_keypress := (is_first_keypress s2)(chars := True)\<rparr>))
               else (None, s1)))
      else (None, s))"

text \<open>
  Line 56: the keys of \<open>pressed\<close> in order; an exception ends the loop. The body only
  assigns to the key it is at, so the dictionary does not change size under the iteration.
\<close>

fun tick_keys :: "config \<Rightarrow> string list \<Rightarrow> 'm state \<Rightarrow> error option \<times> 'm state" where
  "tick_keys cfg [] s = (None, s)"
| "tick_keys cfg (k # ks) s =
     (case tick_key cfg k s of
        (Some e, s') \<Rightarrow> (Some e, s')
      | (None, s') \<Rightarrow> tick_keys cfg ks s')"

datatype control = Continue | Break | Raise error

text \<open>
  Lines 42-67, the body of the \<^verbatim>\<open>try\<close>. \<open>setcbreak\<close> is what \<^verbatim>\<open>tty.setcbreak\<close> makes of
  the terminal attributes (library code, a parameter here).
\<close>

definition guarded :: "('m \<Rightarrow> 'm) \<Rightarrow> config \<Rightarrow> env \<Rightarrow> 'm state \<Rightarrow> control \<times> 'm state" where
  "guarded setcbreak cfg e s =
     (if Setcbreak \<in> failing e then (Raise TermiosError, s)
      else
        (let s1 = s\<lparr>term_attrs := setcbreak (term_attrs s)\<rparr> in
         if select_timeout_ms cfg < 0 then (Raise ValueError, s1)
         else if Select \<in> failing e then (Raise OSError, s1)
         else
           (case arrival e of
              Some chars \<Rightarrow>
                if Read \<in> failing e then (Raise OSError, s1)
                else if chars = sentinel then (Break, s1)
                else (Continue, key_event (up_hooks cfg) chars s1)
            | None \<Rightarrow>
                (case tick_keys cfg (map fst (pressed s1)) s1 of
                   (Some err, s2) \<Rightarrow> (Raise err, s2)
                 | (None, s2) \<Rightarrow> (Continue, s2)))))"

text \<open>
  Lines 38-70: one iteration. Lines 39 and 40 are outside the \<^verbatim>\<open>try\<close>; the
  \<^verbatim>\<open>finally\<close> block runs on every way out of the \<^verbatim>\<open>try\<close>, and an exception raised
  in it replaces the outcome of the body.
\<close>

definition iteration :: "('m \<Rightarrow> 'm) \<Rightarrow> config \<Rightarrow> env \<Rightarrow> 'm state \<Rightarrow> control \<times> 'm state" where
  "iteration setcbreak cfg e s =
     (if Tcgetattr \<in> failing e then (Raise TermiosError, s)
      else
        (let orig = term_attrs s in
         if SetNonblocking \<in> failing e then (Raise OSError, s)
         else
           (let s1 = s\<lparr>status_flags := status_flags s OR O_NONBLOCK\<rparr> in
            case guarded setcbreak cfg e s1 of
              (c, s2) \<Rightarrow>
                if Tcsetattr \<in> failing e then (Raise TermiosError, s2)
                else
                  (let s3 = s2\<lparr>term_attrs := orig\<rparr> in
                   if SetBlocking \<in> failing e then (Raise OSError, s3)
                   else (c, s3\<lparr>status_flags := status_flags s3 AND NOT O_NONBLOCK\<rparr>)))))"

text \<open>
  Line 37: \<^verbatim>\<open>while True\<close>, over the environments of the successive iterations. The loop
  is still \<open>Running\<close> when they are used up.
\<close>

datatype result = Running | Returned | Raised error

fun event_loop :: "('m \<Rightarrow> 'm) \<Rightarrow> config \<Rightarrow> env list \<Rightarrow> 'm state \<Rightarrow> result \<times> 'm state" where
  "event_loop setcbreak cfg [] s = (Running, s)"
| "event_loop setcbreak cfg (e # es) s =
     (case iteration setcbreak cfg e s of
        (Continue, s') \<Rightarrow> event_loop setcbreak cfg es s'
      | (Break, s') \<Rightarrow> (Returned, s')
      | (Raise err, s') \<Rightarrow> (Raised err, s'))"

definition select_key_events ::
  "('m \<Rightarrow> 'm) \<Rightarrow> hooks \<Rightarrow> hooks \<Rightarrow> int \<Rightarrow> int \<Rightarrow> int \<Rightarrow> env list \<Rightarrow> 'm \<Rightarrow> int \<Rightarrow> result \<times> 'm state" where
  "select_key_events setcbreak up down init_ms repeat_ms timeout_ms es m fl =
     event_loop setcbreak (loop_config up init_ms repeat_ms timeout_ms) es (initial_state down m fl)"

section \<open>The script's own hook tables\<close>

text \<open>Lines 96-104: both tables are \<^verbatim>\<open>defaultdict\<close>s whose factory makes a callback that
  does nothing; the two arrow keys (ESC \<open>[\<close> \<open>A\<close> and ESC \<open>[\<close> \<open>B\<close>) are registered.\<close>

definition up_arrow :: string where
  "up_arrow = [CHR 0x1B, CHR ''['', CHR ''A'']"

definition down_arrow :: string where
  "down_arrow = [CHR 0x1B, CHR ''['', CHR ''B'']"

definition main_up_hooks :: hooks where
  "main_up_hooks =
     \<lparr>entries = [up_arrow \<mapsto> Print ''Up pressed'', down_arrow \<mapsto> Print ''Down pressed''],
      default_factory = Some Noop\<rparr>"

definition main_down_hooks :: hooks where
  "main_down_hooks =
     \<lparr>entries = [up_arrow \<mapsto> Print ''Up released'', down_arrow \<mapsto> Print ''Down released''],
      default_factory = Some Noop\<rparr>"

section \<open>Notions used in the statements\<close>

text \<open>\<^verbatim>\<open>h[k]\<close> does not raise: \<open>k\<close> is registered, or the table has a default factory.\<close>

definition resolves :: "hooks \<Rightarrow> string \<Rightarrow> bool" where
  "resolves h k = (entries h k \<noteq> None \<or> default_factory h \<noteq> None)"

text \<open>
  \<open>pressed\<close> is a dictionary, so its keys are distinct, and the release callback of
  every key it holds can be looked up.
\<close>

definition tracker_ok :: "'m state \<Rightarrow> bool" where
  "tracker_ok s =
     (distinct (map fst (pressed s)) \<and> list_all (resolves (down_hooks s)) (map fst (pressed s)))"

text \<open>
  What the loop holds about one key: pressed, first keypress, delay, and how often its
  press and release callbacks have been called.
\<close>

type_synonym key_state = "bool \<times> bool \<times> int \<times> nat \<times> nat"

definition key_view :: "'m state \<Rightarrow> string \<Rightarrow> key_state" where
  "key_view s k = (is_pressed s k, is_first_keypress s k, current_delay_ms s k,
     fired UpHooks k (calls s), fired DownHooks k (calls s))"

text \<open>The effect of one timeout, and of one arrival of the key, on that key alone.\<close>

definition tick_view :: "config \<Rightarrow> key_state \<Rightarrow> key_state" where
  "tick_view cfg v =
     (case v of (p, f, d, u, n) \<Rightarrow>
        if p then
          (let d' = d + select_timeout_ms cfg in
           if d' > (if f then kbd_init_delay_ms cfg else kbd_repeat_delay_ms cfg)
           then (False, True, d', u, Suc n) else (True, f, d', u, n))
        else v)"

definition event_view :: "bool \<Rightarrow> key_state \<Rightarrow> key_state" where
  "event_view registered v =
     (case v of (p, f, d, u, n) \<Rightarrow>
        if p then (True, False, 0, u, n)
        else (True, True, 0, (if registered then Suc u else u), n))"

text \<open>\<open>n\<close> times: the key arrives, then \<open>j\<close> timeouts pass.\<close>

definition cycles :: "string \<Rightarrow> nat \<Rightarrow> nat \<Rightarrow> env list" where
  "cycles k j n = concat (replicate n (key_arrives k # replicate j quiet))"

text \<open>One such cycle on the key alone.\<close>

definition cycle_view :: "config \<Rightarrow> bool \<Rightarrow> nat \<Rightarrow> key_state \<Rightarrow> key_state" where
  "cycle_view cfg registered j v = (tick_view cfg ^^ j) (event_view registered v)"

text \<open>An initial delay shorter than half the repeat delay, the timeout derived (10 ms).\<close>

definition slow_config :: config where
  "slow_config = loop_config main_up_hooks 10 40 (- 1)"


section \<open>\<^verbatim>\<open>calibrate_keyboard_delays\<close>\<close>






section \<open>Facts about the loop body\<close>

subsection \<open>Dictionary and log\<close>

lemma is_pressed_keys: "is_pressed s k \<Longrightarrow> k \<in> set (map fst (pressed s))"
  by (auto simp: is_pressed_def split: option.splits dest: map_of_SomeD intro: rev_image_eqI)

lemma update_key_cases:
  "(a, b) \<in> set (AList.update c v al) \<Longrightarrow> a = c \<or> a \<in> fst ` set al"
  using dom_update [of c v al] by force

lemma fired_append:
  "fired tb k (cs @ [(tb', k', c)]) = (if tb = tb' \<and> k = k' then Suc (fired tb k cs) else fired tb k cs)"
  by (simp add: fired_def)

lemma fired_le_append: "fired tb k cs \<le> fired tb k (cs @ cs')"
  by (simp add: fired_def)

lemma getitem_resolves:
  "resolves h k \<Longrightarrow> \<exists>c h'. getitem h k = Inr (c, h') \<and> default_factory h' = default_factory h
     \<and> (\<forall>k'. resolves h k' \<longrightarrow> resolves h' k')"
  by (auto simp: getitem_def resolves_def split: option.splits)

lemma getitem_mono:
  "getitem h k = Inr (c, h') \<Longrightarrow> resolves h k' \<Longrightarrow> resolves h' k'"
  by (auto simp: getitem_def resolves_def split: option.splits)

lemma key_view_terminal:
  "key_view (s\<lparr>term_attrs := a\<rparr>) k = key_view s k"
  "key_view (s\<lparr>status_flags := fl\<rparr>) k = key_view s k"
  by (simp_all add: key_view_def is_pressed_def)

lemma is_pressed_at: "is_pressed s k = pressed_at (pressed s) k"
  by (simp add: is_pressed_def pressed_at_def)

lemma pressed_at_update: "pressed_at (AList.update c v al) k = (if k = c then v else pressed_at al k)"
  by (simp add: pressed_at_def update_conv')

lemma printed_append: "printed (cs @ cs') = printed cs @ printed cs'"
  by (induction cs rule: printed.induct) simp_all

lemma first_terminal:
  "is_pressed (s\<lparr>term_attrs := a\<rparr>) k = is_pressed s k"
  "is_pressed (s\<lparr>status_flags := fl\<rparr>) k = is_pressed s k"
  by (simp_all add: is_pressed_def)

subsection \<open>One key in the timeout branch\<close>

lemma tick_key_other:
  "c \<noteq> k \<Longrightarrow> key_view (snd (tick_key cfg c s)) k = key_view s k"
  by (auto simp: tick_key_def call_down_def key_view_def is_pressed_def update_conv' Let_def fired_append
      split: sum.splits prod.splits option.splits)

lemma tick_key_keys:
  "map fst (pressed (snd (tick_key cfg c s))) = map fst (pressed s)"
  by (auto simp: tick_key_def call_down_def Let_def update_keys dest: is_pressed_keys
      split: sum.splits prod.splits option.splits)

lemma tick_key_mono:
  "resolves (down_hooks s) k \<Longrightarrow> resolves (down_hooks (snd (tick_key cfg c s))) k"
  by (auto simp: tick_key_def call_down_def Let_def dest: getitem_mono
      split: sum.splits prod.splits option.splits)

lemma tick_key_self:
  assumes "resolves (down_hooks s) c"
  shows "fst (tick_key cfg c s) = None"
    and "key_view (snd (tick_key cfg c s)) c = tick_view cfg (key_view s c)"
  using getitem_resolves [OF assms]
  by (auto simp: tick_key_def call_down_def key_view_def tick_view_def is_pressed_def update_conv' Let_def fired_append
      split: sum.splits prod.splits option.splits)

lemma tick_key_calls: "\<exists>cs. calls (snd (tick_key cfg c s)) = calls s @ cs"
  by (auto simp: tick_key_def call_down_def Let_def split: sum.splits prod.splits option.splits)

subsection \<open>All keys in the timeout branch\<close>

lemma tick_keys_view:
  assumes "distinct ks" and "list_all (resolves (down_hooks s)) ks"
  shows "fst (tick_keys cfg ks s) = None
     \<and> map fst (pressed (snd (tick_keys cfg ks s))) = map fst (pressed s)
     \<and> (\<forall>k. resolves (down_hooks s) k \<longrightarrow> resolves (down_hooks (snd (tick_keys cfg ks s))) k)
     \<and> (\<forall>k. key_view (snd (tick_keys cfg ks s)) k =
            (if k \<in> set ks then tick_view cfg (key_view s k) else key_view s k))"
  using assms
proof (induction ks arbitrary: s)
  case Nil
  then show ?case by simp
next
  case (Cons c ks)
  obtain s' where s': "tick_key cfg c s = (None, s')"
    using tick_key_self(1) [of s c cfg] Cons.prems by (cases "tick_key cfg c s") auto
  have mono: "\<And>k. resolves (down_hooks s) k \<Longrightarrow> resolves (down_hooks s') k"
    using tick_key_mono [of s _ cfg c] s' by simp
  have "list_all (resolves (down_hooks s')) ks"
    using Cons.prems mono by (auto simp: list_all_iff)
  with Cons.prems have IH: "fst (tick_keys cfg ks s') = None
     \<and> map fst (pressed (snd (tick_keys cfg ks s'))) = map fst (pressed s')
     \<and> (\<forall>k. resolves (down_hooks s') k \<longrightarrow> resolves (down_hooks (snd (tick_keys cfg ks s'))) k)
     \<and> (\<forall>k. key_view (snd (tick_keys cfg ks s')) k =
            (if k \<in> set ks then tick_view cfg (key_view s' k) else key_view s' k))"
    by (intro Cons.IH) auto
  have keys: "map fst (pressed s') = map fst (pressed s)"
    using tick_key_keys [of cfg c s] s' by simp
  have self: "key_view s' c = tick_view cfg (key_view s c)"
    using tick_key_self(2) [of s c cfg] Cons.prems s' by simp
  have other: "\<And>k. k \<noteq> c \<Longrightarrow> key_view s' k = key_view s k"
    using tick_key_other [of c _ cfg s] s' by simp
  have rest: "tick_keys cfg (c # ks) s = tick_keys cfg ks s'"
    by (simp add: s')
  have "key_view (snd (tick_keys cfg ks s')) k =
          (if k \<in> set (c # ks) then tick_view cfg (key_view s k) else key_view s k)" for k
  proof (cases "k = c")
    case True
    then show ?thesis using IH Cons.prems self by auto
  next
    case False
    then show ?thesis using IH other by auto
  qed
  then show ?case
    unfolding rest using IH keys mono by auto
qed

lemma tick_view_released: "\<not> fst v \<Longrightarrow> tick_view cfg v = v"
  by (auto simp: tick_view_def split: prod.splits)

lemma tick_all_view:
  assumes "tracker_ok s"
  shows "fst (tick_keys cfg (map fst (pressed s)) s) = None"
    and "tracker_ok (snd (tick_keys cfg (map fst (pressed s)) s))"
    and "key_view (snd (tick_keys cfg (map fst (pressed s)) s)) k = tick_view cfg (key_view s k)"
    and "resolves (down_hooks s) k \<Longrightarrow>
           resolves (down_hooks (snd (tick_keys cfg (map fst (pressed s)) s))) k"
proof -
  let ?ks = "map fst (pressed s)"
  have *: "distinct ?ks" "list_all (resolves (down_hooks s)) ?ks"
    using assms by (simp_all add: tracker_ok_def)
  note v = tick_keys_view [OF *, of cfg]
  show "fst (tick_keys cfg ?ks s) = None" using v by simp
  show "resolves (down_hooks (snd (tick_keys cfg ?ks s))) k" if "resolves (down_hooks s) k"
    using v that by simp
  show "tracker_ok (snd (tick_keys cfg ?ks s))"
    using v * by (auto simp: tracker_ok_def list_all_iff)
  show "key_view (snd (tick_keys cfg ?ks s)) k = tick_view cfg (key_view s k)"
  proof (cases "k \<in> set ?ks")
    case True
    then show ?thesis using v by simp
  next
    case False
    then have "\<not> is_pressed s k" using is_pressed_keys by blast
    then have "tick_view cfg (key_view s k) = key_view s k"
      by (intro tick_view_released) (simp add: key_view_def)
    then show ?thesis using v False by simp
  qed
qed

lemma tick_keys_unpressed:
  "\<not> is_pressed s k \<Longrightarrow> key_view (snd (tick_keys cfg ks s)) k = key_view s k"
proof (induction ks arbitrary: s)
  case Nil
  then show ?case by simp
next
  case (Cons c ks)
  have kv: "key_view (snd (tick_key cfg c s)) k = key_view s k"
  proof (cases "c = k")
    case True
    then show ?thesis using Cons.prems by (simp add: tick_key_def)
  next
    case False
    then show ?thesis by (rule tick_key_other)
  qed
  then have "\<not> is_pressed (snd (tick_key cfg c s)) k"
    using Cons.prems by (simp add: key_view_def)
  from Cons.IH [OF this] kv show ?case
    by (cases "tick_key cfg c s") (auto split: option.splits)
qed

lemma tick_keys_calls: "\<exists>cs. calls (snd (tick_keys cfg ks s)) = calls s @ cs"
proof (induction ks arbitrary: s)
  case Nil
  then show ?case by simp
next
  case (Cons c ks)
  obtain r s' where rs: "tick_key cfg c s = (r, s')" by (cases "tick_key cfg c s")
  obtain cs where cs: "calls s' = calls s @ cs" using tick_key_calls [of cfg c s] rs by auto
  obtain cs' where "calls (snd (tick_keys cfg ks s')) = calls s' @ cs'" using Cons.IH by blast
  then show ?case using cs rs by (cases r) auto
qed

lemma tracker_ok_pressed: "tracker_ok s \<Longrightarrow> is_pressed s k \<Longrightarrow> resolves (down_hooks s) k"
  using is_pressed_keys [of s k] by (auto simp: tracker_ok_def list_all_iff)

subsection \<open>An arriving key\<close>

lemma key_event_view:
  "key_view (key_event up c s) k =
     (if k = c then event_view (entries up c \<noteq> None) (key_view s c) else key_view s k)"
  by (auto simp: key_event_def key_view_def event_view_def is_pressed_def update_conv' Let_def fired_append
      split: option.splits)

lemma key_event_ok:
  "tracker_ok s \<Longrightarrow> resolves (down_hooks s) c \<Longrightarrow> tracker_ok (key_event up c s)"
  by (auto simp: key_event_def tracker_ok_def Let_def update_keys list_all_iff
      dest!: update_key_cases split: option.splits)

lemma key_event_calls: "\<exists>cs. calls (key_event up c s) = calls s @ cs"
  by (auto simp: key_event_def Let_def split: option.splits)

subsection \<open>One iteration\<close>

lemma iteration_quiet:
  assumes "tracker_ok s" and "0 \<le> select_timeout_ms cfg"
  shows "fst (iteration sc cfg quiet s) = Continue"
    and "tracker_ok (snd (iteration sc cfg quiet s))"
    and "key_view (snd (iteration sc cfg quiet s)) k = tick_view cfg (key_view s k)"
    and "resolves (down_hooks s) k \<Longrightarrow> resolves (down_hooks (snd (iteration sc cfg quiet s))) k"
proof -
  let ?s1 = "s\<lparr>status_flags := status_flags s OR O_NONBLOCK, term_attrs := sc (term_attrs s)\<rparr>"
  have ok1: "tracker_ok ?s1" using assms(1) by (simp add: tracker_ok_def)
  have kv1: "key_view ?s1 k = key_view s k" by (simp add: key_view_def is_pressed_def)
  obtain s2 where s2: "tick_keys cfg (map fst (pressed s)) ?s1 = (None, s2)"
    using tick_all_view(1) [OF ok1, of cfg] by (cases "tick_keys cfg (map fst (pressed s)) ?s1") auto
  have ok2: "tracker_ok s2" using tick_all_view(2) [OF ok1, of cfg] s2 by simp
  have kv2: "key_view s2 k = tick_view cfg (key_view s k)"
    using tick_all_view(3) [OF ok1, of cfg k] s2 kv1 by simp
  have it: "iteration sc cfg quiet s =
      (Continue, s2\<lparr>term_attrs := term_attrs s, status_flags := status_flags s2 AND NOT O_NONBLOCK\<rparr>)"
    using assms(2) s2 by (simp add: iteration_def guarded_def quiet_def Let_def)
  show "fst (iteration sc cfg quiet s) = Continue" by (simp add: it)
  show "resolves (down_hooks (snd (iteration sc cfg quiet s))) k" if "resolves (down_hooks s) k"
    using tick_all_view(4) [OF ok1, of k cfg] s2 that by (simp add: it)
  show "tracker_ok (snd (iteration sc cfg quiet s))" using ok2 by (simp add: it tracker_ok_def)
  show "key_view (snd (iteration sc cfg quiet s)) k = tick_view cfg (key_view s k)"
    using kv2 by (simp add: it key_view_def is_pressed_def)
qed

lemma iteration_key:
  assumes "tracker_ok s" and "0 \<le> select_timeout_ms cfg" and "c \<noteq> sentinel"
    and "resolves (down_hooks s) c"
  shows "fst (iteration sc cfg (key_arrives c) s) = Continue"
    and "tracker_ok (snd (iteration sc cfg (key_arrives c) s))"
    and "key_view (snd (iteration sc cfg (key_arrives c) s)) k =
           (if k = c then event_view (entries (up_hooks cfg) c \<noteq> None) (key_view s c) else key_view s k)"
    and "resolves (down_hooks (snd (iteration sc cfg (key_arrives c) s))) c"
proof -
  let ?s1 = "s\<lparr>status_flags := status_flags s OR O_NONBLOCK, term_attrs := sc (term_attrs s)\<rparr>"
  let ?s2 = "key_event (up_hooks cfg) c ?s1"
  have ok1: "tracker_ok ?s1" using assms(1) by (simp add: tracker_ok_def)
  have kv1: "\<And>k. key_view ?s1 k = key_view s k" by (simp add: key_view_def is_pressed_def)
  have ok2: "tracker_ok ?s2" using key_event_ok [OF ok1] assms(4) by simp
  have it: "iteration sc cfg (key_arrives c) s =
      (Continue, ?s2\<lparr>term_attrs := term_attrs s, status_flags := status_flags ?s2 AND NOT O_NONBLOCK\<rparr>)"
    using assms(2,3) by (simp add: iteration_def guarded_def key_arrives_def Let_def)
  show "fst (iteration sc cfg (key_arrives c) s) = Continue" by (simp add: it)
  show "resolves (down_hooks (snd (iteration sc cfg (key_arrives c) s))) c"
    using assms(4) by (simp add: it key_event_def Let_def split: option.splits)
  show "tracker_ok (snd (iteration sc cfg (key_arrives c) s))" using ok2 by (simp add: it tracker_ok_def)
  have "key_view (snd (iteration sc cfg (key_arrives c) s)) k = key_view ?s2 k"
    by (simp add: it key_view_def is_pressed_def)
  then show "key_view (snd (iteration sc cfg (key_arrives c) s)) k =
           (if k = c then event_view (entries (up_hooks cfg) c \<noteq> None) (key_view s c) else key_view s k)"
    by (simp add: key_event_view kv1)
qed

lemma guarded_unpressed:
  assumes "\<not> is_pressed s k" and "arrival e \<noteq> Some k"
  shows "key_view (snd (guarded sc cfg e s)) k = key_view s k"
proof -
  let ?s1 = "s\<lparr>term_attrs := sc (term_attrs s)\<rparr>"
  have np: "\<not> is_pressed ?s1 k" using assms(1) by (simp add: is_pressed_def)
  have "key_view (snd (tick_keys cfg (map fst (pressed s)) ?s1)) k = key_view s k"
    using tick_keys_unpressed [OF np, of cfg] by (simp add: key_view_terminal)
  then show ?thesis
    using assms(2)
    by (auto simp: guarded_def Let_def key_event_view key_view_terminal
        split: option.splits prod.splits)
qed

lemma iteration_unpressed:
  assumes "\<not> is_pressed s k" and "arrival e \<noteq> Some k"
  shows "key_view (snd (iteration sc cfg e s)) k = key_view s k"
proof -
  let ?s1 = "s\<lparr>status_flags := status_flags s OR O_NONBLOCK\<rparr>"
  have np: "\<not> is_pressed ?s1 k" using assms(1) by (simp add: is_pressed_def)
  have "key_view (snd (guarded sc cfg e ?s1)) k = key_view s k"
    using guarded_unpressed [OF np assms(2), of sc cfg] by (simp add: key_view_terminal)
  then show ?thesis
    by (auto simp: iteration_def Let_def key_view_terminal split: prod.splits)
qed

lemma iteration_calls: "\<exists>cs. calls (snd (iteration sc cfg e s)) = calls s @ cs"
proof -
  let ?s1 = "s\<lparr>status_flags := status_flags s OR O_NONBLOCK, term_attrs := sc (term_attrs s)\<rparr>"
  obtain cs where "calls (snd (tick_keys cfg (map fst (pressed s)) ?s1)) = calls s @ cs"
    using tick_keys_calls [of cfg "map fst (pressed s)" ?s1] by auto
  moreover have "\<exists>cs. calls (key_event (up_hooks cfg) c ?s1) = calls s @ cs" for c
    using key_event_calls [of "up_hooks cfg" c ?s1] by simp
  ultimately show ?thesis
    by (auto simp: iteration_def guarded_def Let_def split: option.splits prod.splits)
qed

subsection \<open>The loop\<close>

lemma event_loop_append:
  "event_loop sc cfg (es @ es') s =
     (case event_loop sc cfg es s of (Running, s') \<Rightarrow> event_loop sc cfg es' s' | r \<Rightarrow> r)"
  by (induction es arbitrary: s) (auto split: prod.splits control.splits)

lemma event_loop_quiet:
  assumes "tracker_ok s" and "0 \<le> select_timeout_ms cfg"
  shows "fst (event_loop sc cfg (replicate m quiet) s) = Running
     \<and> tracker_ok (snd (event_loop sc cfg (replicate m quiet) s))
     \<and> (\<forall>k. key_view (snd (event_loop sc cfg (replicate m quiet) s)) k = (tick_view cfg ^^ m) (key_view s k))
     \<and> (\<forall>k. resolves (down_hooks s) k \<longrightarrow>
            resolves (down_hooks (snd (event_loop sc cfg (replicate m quiet) s))) k)"
  using assms(1)
proof (induction m arbitrary: s)
  case 0
  then show ?case by simp
next
  case (Suc m)
  obtain s' where s': "iteration sc cfg quiet s = (Continue, s')"
    using iteration_quiet(1) [OF Suc.prems assms(2), of sc] by (cases "iteration sc cfg quiet s") auto
  have ok: "tracker_ok s'" using iteration_quiet(2) [OF Suc.prems assms(2), of sc] s' by simp
  have kv: "\<And>k. key_view s' k = tick_view cfg (key_view s k)"
    using iteration_quiet(3) [OF Suc.prems assms(2), of sc] s' by simp
  have rs: "\<And>k. resolves (down_hooks s) k \<Longrightarrow> resolves (down_hooks s') k"
    using iteration_quiet(4) [OF Suc.prems assms(2), of _ sc] s' by simp
  show ?case using Suc.IH [OF ok] rs by (simp add: s' kv funpow_swap1)
qed

lemma event_loop_cycle:
  assumes "tracker_ok s" and "0 \<le> select_timeout_ms cfg" and "k \<noteq> sentinel"
    and "resolves (down_hooks s) k"
  shows "fst (event_loop sc cfg (key_arrives k # replicate j quiet) s) = Running
     \<and> tracker_ok (snd (event_loop sc cfg (key_arrives k # replicate j quiet) s))
     \<and> key_view (snd (event_loop sc cfg (key_arrives k # replicate j quiet) s)) k =
         (tick_view cfg ^^ j) (event_view (entries (up_hooks cfg) k \<noteq> None) (key_view s k))
     \<and> resolves (down_hooks (snd (event_loop sc cfg (key_arrives k # replicate j quiet) s))) k"
proof -
  obtain s' where s': "iteration sc cfg (key_arrives k) s = (Continue, s')"
    using iteration_key(1) [OF assms, of sc] by (cases "iteration sc cfg (key_arrives k) s") auto
  have ok: "tracker_ok s'" using iteration_key(2) [OF assms, of sc] s' by simp
  have kv: "key_view s' k = event_view (entries (up_hooks cfg) k \<noteq> None) (key_view s k)"
    using iteration_key(3) [OF assms, of sc k] s' by simp
  have rs: "resolves (down_hooks s') k"
    using iteration_key(4) [OF assms, of sc] s' by simp
  show ?thesis
    using event_loop_quiet [OF ok assms(2), of sc j] rs by (simp add: s' kv)
qed

lemma event_loop_unpressed:
  assumes "\<not> is_pressed s k" and "\<forall>e \<in> set es. arrival e \<noteq> Some k"
  shows "key_view (snd (event_loop sc cfg es s)) k = key_view s k"
  using assms
proof (induction es arbitrary: s)
  case Nil
  then show ?case by simp
next
  case (Cons e es)
  have kv: "key_view (snd (iteration sc cfg e s)) k = key_view s k"
    using iteration_unpressed [of s k e sc cfg] Cons.prems by simp
  then have np: "\<not> is_pressed (snd (iteration sc cfg e s)) k"
    using Cons.prems(1) by (simp add: key_view_def)
  show ?case
    using Cons.IH [OF np] Cons.prems(2) kv
    by (cases "iteration sc cfg e s") (auto split: control.splits)
qed

lemma event_loop_calls: "\<exists>cs. calls (snd (event_loop sc cfg es s)) = calls s @ cs"
proof (induction es arbitrary: s)
  case Nil
  then show ?case by simp
next
  case (Cons e es)
  obtain c s' where cs: "iteration sc cfg e s = (c, s')" by (cases "iteration sc cfg e s")
  obtain xs where xs: "calls s' = calls s @ xs" using iteration_calls [of sc cfg e s] cs by auto
  obtain ys where "calls (snd (event_loop sc cfg es s')) = calls s' @ ys" using Cons.IH by blast
  then show ?case using cs xs by (cases c) auto
qed

lemma event_loop_fired_mono:
  "fired tb k (calls s) \<le> fired tb k (calls (snd (event_loop sc cfg es s)))"
  using event_loop_calls [of sc cfg es s] by (auto simp: fired_le_append)

lemma event_loop_take_fired:
  "fired tb k (calls (snd (event_loop sc cfg (take i es) s)))
     \<le> fired tb k (calls (snd (event_loop sc cfg es s)))"
proof -
  have "event_loop sc cfg es s = event_loop sc cfg (take i es @ drop i es) s" by simp
  also have "\<dots> = (case event_loop sc cfg (take i es) s of
      (Running, s') \<Rightarrow> event_loop sc cfg (drop i es) s' | r \<Rightarrow> r)"
    by (rule event_loop_append)
  finally show ?thesis
    using event_loop_fired_mono
    by (cases "event_loop sc cfg (take i es) s") (auto split: result.splits)
qed

subsection \<open>Repeated timeouts on one key\<close>

lemma tick_pow_released: "\<not> fst v \<Longrightarrow> (tick_view cfg ^^ m) v = v"
  by (induction m) (simp_all add: tick_view_released)

lemma tick_pow_hold:
  assumes "0 \<le> select_timeout_ms cfg"
    and "d + int m * select_timeout_ms cfg \<le> (if f then kbd_init_delay_ms cfg else kbd_repeat_delay_ms cfg)"
  shows "(tick_view cfg ^^ m) (True, f, d, u, n) = (True, f, d + int m * select_timeout_ms cfg, u, n)"
  using assms(2)
proof (induction m)
  case 0
  then show ?case by simp
next
  case (Suc m)
  have "0 \<le> select_timeout_ms cfg * int m" using assms(1) by simp
  moreover have "d + int m * select_timeout_ms cfg
      \<le> (if f then kbd_init_delay_ms cfg else kbd_repeat_delay_ms cfg)"
    using Suc.prems assms(1) by (simp add: algebra_simps split: if_splits)
  ultimately show ?case
    using Suc by (simp add: tick_view_def algebra_simps split: if_splits)
qed

lemma tick_pow_first:
  assumes "d \<le> kbd_init_delay_ms cfg"
    and "kbd_init_delay_ms cfg < d + int m * select_timeout_ms cfg"
  shows "\<exists>d'. (tick_view cfg ^^ m) (True, True, d, u, n) = (False, True, d', u, Suc n)"
  using assms
proof (induction m arbitrary: d)
  case 0
  then show ?case by simp
next
  case (Suc m)
  let ?d = "d + select_timeout_ms cfg"
  show ?case
  proof (cases "kbd_init_delay_ms cfg < ?d")
    case True
    then have "tick_view cfg (True, True, d, u, n) = (False, True, ?d, u, Suc n)"
      by (simp add: tick_view_def)
    then show ?thesis
      by (simp add: funpow_swap1 tick_pow_released)
  next
    case False
    then have step: "tick_view cfg (True, True, d, u, n) = (True, True, ?d, u, n)"
      by (simp add: tick_view_def)
    have "kbd_init_delay_ms cfg < ?d + int m * select_timeout_ms cfg"
      using Suc.prems(2) by (simp add: algebra_simps)
    with False Suc.IH [of ?d] show ?thesis
      by (simp add: funpow_swap1 step)
  qed
qed

subsection \<open>Cycles of an arrival and timeouts\<close>

lemma cycles_Suc: "cycles k j (Suc n) = (key_arrives k # replicate j quiet) @ cycles k j n"
  by (simp add: cycles_def)

lemma event_loop_cycles:
  assumes "0 \<le> select_timeout_ms cfg" and "k \<noteq> sentinel"
  shows "tracker_ok s \<Longrightarrow> resolves (down_hooks s) k \<Longrightarrow>
     fst (event_loop sc cfg (cycles k j n) s) = Running
     \<and> tracker_ok (snd (event_loop sc cfg (cycles k j n) s))
     \<and> resolves (down_hooks (snd (event_loop sc cfg (cycles k j n) s))) k
     \<and> key_view (snd (event_loop sc cfg (cycles k j n) s)) k =
         (cycle_view cfg (entries (up_hooks cfg) k \<noteq> None) j ^^ n) (key_view s k)"
proof (induction n arbitrary: s)
  case 0
  then show ?case by (simp add: cycles_def)
next
  case (Suc n)
  let ?c = "key_arrives k # replicate j quiet"
  note cyc = event_loop_cycle [OF Suc.prems(1) assms(1) assms(2) Suc.prems(2), of sc j]
  obtain s' where s': "event_loop sc cfg ?c s = (Running, s')"
    using cyc by (cases "event_loop sc cfg ?c s") auto
  have step: "event_loop sc cfg (cycles k j (Suc n)) s = event_loop sc cfg (cycles k j n) s'"
    unfolding cycles_Suc event_loop_append s' by simp
  have "tracker_ok s'" and "resolves (down_hooks s') k"
    and kv: "key_view s' k = cycle_view cfg (entries (up_hooks cfg) k \<noteq> None) j (key_view s k)"
    using cyc s' by (simp_all add: cycle_view_def)
  from Suc.IH [OF this(1,2)] show ?case
    unfolding step by (simp add: kv funpow_swap1)
qed

lemma cycles_pressed:
  assumes "0 \<le> select_timeout_ms cfg"
    and "int j * select_timeout_ms cfg \<le> kbd_repeat_delay_ms cfg"
    and "k \<noteq> sentinel"
  shows "tracker_ok s \<Longrightarrow> is_pressed s k \<Longrightarrow>
     fst (event_loop sc cfg (cycles k j n) s) = Running
     \<and> is_pressed (snd (event_loop sc cfg (cycles k j n) s)) k
     \<and> fired UpHooks k (calls (snd (event_loop sc cfg (cycles k j n) s))) = fired UpHooks k (calls s)
     \<and> fired DownHooks k (calls (snd (event_loop sc cfg (cycles k j n) s))) = fired DownHooks k (calls s)"
proof (induction n arbitrary: s)
  case 0
  then show ?case by (simp add: cycles_def)
next
  case (Suc n)
  let ?c = "key_arrives k # replicate j quiet"
  let ?r = "event_loop sc cfg ?c s"
  have res: "resolves (down_hooks s) k" using Suc.prems by (rule tracker_ok_pressed)
  note cyc = event_loop_cycle [OF Suc.prems(1) assms(1) assms(3) res, of sc j]
  have ev: "event_view (entries (up_hooks cfg) k \<noteq> None) (key_view s k)
      = (True, False, 0, fired UpHooks k (calls s), fired DownHooks k (calls s))"
    using Suc.prems(2) by (simp add: event_view_def key_view_def)
  have "key_view (snd ?r) k
      = (True, False, 0 + int j * select_timeout_ms cfg, fired UpHooks k (calls s), fired DownHooks k (calls s))"
    using cyc ev tick_pow_hold [OF assms(1), of 0 j False] assms(2) by simp
  then have p: "is_pressed (snd ?r) k"
    and u: "fired UpHooks k (calls (snd ?r)) = fired UpHooks k (calls s)"
    and d: "fired DownHooks k (calls (snd ?r)) = fired DownHooks k (calls s)"
    by (simp_all add: key_view_def)
  have ok: "tracker_ok (snd ?r)" using cyc by simp
  obtain s' where s': "?r = (Running, s')" using cyc by (cases ?r) auto
  have "event_loop sc cfg (cycles k j (Suc n)) s = event_loop sc cfg (cycles k j n) s'"
    unfolding cycles_Suc event_loop_append s' by simp
  then show ?case
    using Suc.IH [of s'] ok p u d s' by simp
qed

subsection \<open>The non-blocking flag\<close>



subsection \<open>A released key counts as a first keypress\<close>

lemma tick_key_first:
  assumes "\<forall>k. \<not> is_pressed s k \<longrightarrow> is_first_keypress s k"
  shows "\<not> is_pressed (snd (tick_key cfg c s)) k \<Longrightarrow> is_first_keypress (snd (tick_key cfg c s)) k"
  using assms
  by (auto simp: tick_key_def call_down_def is_pressed_at pressed_at_update Let_def
      split: sum.splits prod.splits option.splits if_splits)

lemma tick_keys_first:
  "\<forall>k. \<not> is_pressed s k \<longrightarrow> is_first_keypress s k \<Longrightarrow>
   \<forall>k. \<not> is_pressed (snd (tick_keys cfg ks s)) k \<longrightarrow> is_first_keypress (snd (tick_keys cfg ks s)) k"
proof (induction ks arbitrary: s)
  case Nil
  then show ?case by simp
next
  case (Cons c ks)
  obtain r s' where rs: "tick_key cfg c s = (r, s')" by (cases "tick_key cfg c s")
  have inv: "\<forall>k. \<not> is_pressed s' k \<longrightarrow> is_first_keypress s' k"
    using tick_key_first [OF Cons.prems, of cfg c] rs by simp
  show ?case
    using Cons.IH [OF inv] inv rs by (cases r) simp_all
qed

lemma key_event_first:
  "\<forall>k. \<not> is_pressed s k \<longrightarrow> is_first_keypress s k \<Longrightarrow>
   \<not> is_pressed (key_event up c s) k \<Longrightarrow> is_first_keypress (key_event up c s) k"
  by (auto simp: key_event_def is_pressed_at pressed_at_update Let_def split: option.splits if_splits)

lemma iteration_first:
  assumes "\<forall>k. \<not> is_pressed s k \<longrightarrow> is_first_keypress s k"
  shows "\<forall>k. \<not> is_pressed (snd (iteration sc cfg e s)) k \<longrightarrow> is_first_keypress (snd (iteration sc cfg e s)) k"
proof -
  let ?s1 = "s\<lparr>status_flags := status_flags s OR O_NONBLOCK, term_attrs := sc (term_attrs s)\<rparr>"
  have inv1: "\<forall>k. \<not> is_pressed ?s1 k \<longrightarrow> is_first_keypress ?s1 k"
    using assms by (simp add: first_terminal)
  note t = tick_keys_first [OF inv1, of cfg "map fst (pressed s)"]
  have e: "\<And>c k. \<not> is_pressed (key_event (up_hooks cfg) c ?s1) k \<Longrightarrow>
      is_first_keypress (key_event (up_hooks cfg) c ?s1) k"
    using key_event_first [OF inv1] by blast
  show ?thesis
    using assms t e
    by (auto simp: iteration_def guarded_def Let_def first_terminal split: option.splits prod.splits)
qed

lemma event_loop_first:
  "\<forall>k. \<not> is_pressed s k \<longrightarrow> is_first_keypress s k \<Longrightarrow>
   \<forall>k. \<not> is_pressed (snd (event_loop sc cfg es s)) k \<longrightarrow> is_first_keypress (snd (event_loop sc cfg es s)) k"
proof (induction es arbitrary: s)
  case Nil
  then show ?case by simp
next
  case (Cons e es)
  obtain c s' where cs: "iteration sc cfg e s = (c, s')" by (cases "iteration sc cfg e s")
  have inv: "\<forall>k. \<not> is_pressed s' k \<longrightarrow> is_first_keypress s' k"
    using iteration_first [OF Cons.prems, of sc cfg e] cs by simp
  show ?case
    using Cons.IH [OF inv] inv cs by (cases c) simp_all
qed

subsection \<open>The terminal across the loop body\<close>






subsection \<open>The states the loop reaches\<close>

text \<open>
  Started as \<^verbatim>\<open>select_key_events\<close> starts it, with a release table that has a default
  factory (as both tables of the script have), the loop only reaches states in which
  \<open>tracker_ok\<close> holds and every release lookup resolves.
\<close>

lemma tick_key_factory:
  "default_factory (down_hooks (snd (tick_key cfg c s))) = default_factory (down_hooks s)"
  by (auto simp: tick_key_def call_down_def getitem_def Let_def split: option.splits)

lemma tick_keys_shape:
  "map fst (pressed (snd (tick_keys cfg ks s))) = map fst (pressed s)
   \<and> default_factory (down_hooks (snd (tick_keys cfg ks s))) = default_factory (down_hooks s)"
proof (induction ks arbitrary: s)
  case Nil
  then show ?case by simp
next
  case (Cons c ks)
  obtain r s' where rs: "tick_key cfg c s = (r, s')" by (cases "tick_key cfg c s")
  have "map fst (pressed s') = map fst (pressed s)"
    and "default_factory (down_hooks s') = default_factory (down_hooks s)"
    using tick_key_keys [of cfg c s] tick_key_factory [of cfg c s] rs by simp_all
  then show ?case using Cons.IH [of s'] rs by (cases r) simp_all
qed

lemma key_event_shape:
  "distinct (map fst (pressed s)) \<Longrightarrow> distinct (map fst (pressed (key_event up c s)))"
  "down_hooks (key_event up c s) = down_hooks s"
  by (simp_all add: key_event_def Let_def distinct_update split: option.splits)

lemma iteration_shape:
  assumes "distinct (map fst (pressed s))"
  shows "distinct (map fst (pressed (snd (iteration sc cfg e s))))
     \<and> default_factory (down_hooks (snd (iteration sc cfg e s))) = default_factory (down_hooks s)"
proof -
  let ?s1 = "s\<lparr>status_flags := status_flags s OR O_NONBLOCK, term_attrs := sc (term_attrs s)\<rparr>"
  have d1: "distinct (map fst (pressed ?s1))" using assms by simp
  note t = tick_keys_shape [of cfg "map fst (pressed s)" ?s1]
  have k: "distinct (map fst (pressed (key_event (up_hooks cfg) c ?s1)))"
    "down_hooks (key_event (up_hooks cfg) c ?s1) = down_hooks s" for c
    using key_event_shape(1) [OF d1] key_event_shape(2) [of "up_hooks cfg" c ?s1] by simp_all
  show ?thesis
    using assms t k
    by (auto simp: iteration_def guarded_def Let_def split: option.splits prod.splits)
qed

lemma event_loop_shape:
  "distinct (map fst (pressed s)) \<Longrightarrow>
   distinct (map fst (pressed (snd (event_loop sc cfg es s))))
   \<and> default_factory (down_hooks (snd (event_loop sc cfg es s))) = default_factory (down_hooks s)"
proof (induction es arbitrary: s)
  case Nil
  then show ?case by simp
next
  case (Cons e es)
  obtain c s' where cs: "iteration sc cfg e s = (c, s')" by (cases "iteration sc cfg e s")
  have s': "distinct (map fst (pressed s'))"
    "default_factory (down_hooks s') = default_factory (down_hooks s)"
    using iteration_shape [OF Cons.prems, of sc cfg e] cs by simp_all
  show ?case
    using Cons.IH [OF s'(1)] s' cs by (cases c) simp_all
qed

lemma script_states_ok:
  assumes "default_factory down \<noteq> None"
  shows "tracker_ok (snd (select_key_events sc up down i r t es m fl))"
    and "resolves (down_hooks (snd (select_key_events sc up down i r t es m fl))) k"
proof -
  let ?s = "snd (select_key_events sc up down i r t es m fl)"
  have "distinct (map fst (pressed (initial_state down m fl)))"
    by (simp add: initial_state_def)
  from event_loop_shape [OF this, of sc "loop_config up i r t" es]
  have d: "distinct (map fst (pressed ?s))" and f: "default_factory (down_hooks ?s) \<noteq> None"
    using assms by (simp_all add: select_key_events_def initial_state_def)
  show "resolves (down_hooks ?s) k" for k using f by (simp add: resolves_def)
  then show "tracker_ok ?s" using d by (simp add: tracker_ok_def list_all_iff)
qed

subsection \<open>Calibration arithmetic\<close>



section \<open>The polling timeout\<close>


section \<open>Release after the initial delay\<close>

text \<open>
  C2: in a state the loop can be in (\<open>tracker_ok\<close>, the release callback of \<open>X\<close>
  resolvable), a key \<open>X\<close> that is not pressed arrives once, and then \<open>m\<close> timeouts pass
  whose accumulated time \<open>m * select_timeout_ms\<close> exceeds a positive
  \<open>kbd_init_delay_ms\<close>. The loop is still running, the release callback of \<open>X\<close> has been
  called exactly once more than before, \<open>X\<close> is not pressed, and whatever follows without
  an arrival of \<open>X\<close> calls the release callback of \<open>X\<close> no further time.
\<close>

theorem first_hold_release:
  assumes "0 < kbd_init_delay_ms cfg"
    and "kbd_init_delay_ms cfg < int m * select_timeout_ms cfg"
    and "X \<noteq> sentinel" and "tracker_ok s" and "resolves (down_hooks s) X"
    and "\<not> is_pressed s X"
  shows "(let r = event_loop sc cfg (key_arrives X # replicate m quiet) s in
          fst r = Running
        \<and> fired DownHooks X (calls (snd r)) = Suc (fired DownHooks X (calls s))
        \<and> \<not> is_pressed (snd r) X
        \<and> (\<forall>es. (\<forall>e \<in> set es. arrival e \<noteq> Some X) \<longrightarrow>
               fired DownHooks X (calls (snd (event_loop sc cfg es (snd r))))
                 = fired DownHooks X (calls (snd r))))"
proof -
  let ?r = "event_loop sc cfg (key_arrives X # replicate m quiet) s"
  have "0 < int m * select_timeout_ms cfg" using assms(1,2) by linarith
  then have T: "0 \<le> select_timeout_ms cfg"
    by (simp add: zero_less_mult_iff)
  note cyc = event_loop_cycle [OF assms(4) T assms(3) assms(5), of sc m]
  let ?reg = "entries (up_hooks cfg) X \<noteq> None"
  let ?u = "fired UpHooks X (calls s)" and ?n = "fired DownHooks X (calls s)"
  have ev: "event_view ?reg (key_view s X)
      = (True, True, 0, (if ?reg then Suc ?u else ?u), ?n)"
    using assms(6) by (simp add: event_view_def key_view_def)
  obtain d' where "(tick_view cfg ^^ m) (True, True, 0, (if ?reg then Suc ?u else ?u), ?n)
      = (False, True, d', (if ?reg then Suc ?u else ?u), Suc ?n)"
    using tick_pow_first [of 0 cfg m] assms(1,2) by auto
  with cyc ev have kv: "key_view (snd ?r) X = (False, True, d', (if ?reg then Suc ?u else ?u), Suc ?n)"
    by simp
  then have np: "\<not> is_pressed (snd ?r) X"
    and cnt: "fired DownHooks X (calls (snd ?r)) = Suc ?n"
    by (simp_all add: key_view_def)
  have "fired DownHooks X (calls (snd (event_loop sc cfg es (snd ?r))))
          = fired DownHooks X (calls (snd ?r))"
    if "\<forall>e \<in> set es. arrival e \<noteq> Some X" for es
    using event_loop_unpressed [OF np that, of sc cfg] by (simp add: key_view_def)
  with cyc np cnt show ?thesis by (simp add: Let_def)
qed

theorem first_hold_release_witness:
  "(let cfg = loop_config main_up_hooks 270 40 (- 1);
        s = initial_state main_down_hooks (0::nat) 0;
        r = event_loop id cfg (key_arrives up_arrow # replicate 28 quiet) s
    in 0 < kbd_init_delay_ms cfg
     \<and> kbd_init_delay_ms cfg < int 28 * select_timeout_ms cfg
     \<and> up_arrow \<noteq> sentinel \<and> tracker_ok s \<and> resolves (down_hooks s) up_arrow
     \<and> \<not> is_pressed s up_arrow
     \<and> fst r = Running \<and> fired DownHooks up_arrow (calls (snd r)) = 1
     \<and> \<not> is_pressed (snd r) up_arrow)"
proof -
  let ?cfg = "loop_config main_up_hooks 270 40 (- 1)"
  let ?s = "initial_state main_down_hooks (0::nat) 0"
  have h1: "0 < kbd_init_delay_ms ?cfg" by (simp add: loop_config_def)
  have h2: "kbd_init_delay_ms ?cfg < int 28 * select_timeout_ms ?cfg"
    by (simp add: loop_config_def effective_timeout_def)
  have h3: "up_arrow \<noteq> sentinel" by (simp add: up_arrow_def sentinel_def)
  have h4: "tracker_ok ?s" by (simp add: tracker_ok_def initial_state_def)
  have h5: "resolves (down_hooks ?s) up_arrow"
    by (simp add: resolves_def initial_state_def main_down_hooks_def)
  have h6: "\<not> is_pressed ?s up_arrow" by (simp add: is_pressed_def initial_state_def)
  have c: "fired DownHooks up_arrow (calls ?s) = 0" by (simp add: fired_def initial_state_def)
  show ?thesis
    using first_hold_release [OF h1 h2 h3 h4 h5 h6, of id] h1 h2 h3 h4 h5 h6 c
    by (simp add: Let_def)
qed

section \<open>A key that keeps repeating\<close>

text \<open>
  C3, as the code has it: in a state the loop can be in (\<open>tracker_ok\<close>, the release
  callback of \<open>X\<close> resolvable), \<open>X\<close>, not pressed before, arrives ten times, each arrival
  followed by \<open>j\<close> timeouts whose accumulated time is at most half of
  \<open>kbd_repeat_delay_ms\<close> and at most \<open>kbd_init_delay_ms\<close>. The loop is still running with \<open>X\<close> pressed; after every
  prefix of the sequence the release callback of \<open>X\<close> has not been called, and after every
  non-empty prefix the press callback registered for \<open>X\<close> has been called exactly once
  (never, when none is registered: line 49).
\<close>

theorem sustained_repeat:
  assumes "0 \<le> select_timeout_ms cfg"
    and "int j * select_timeout_ms cfg \<le> kbd_repeat_delay_ms cfg div 2"
    and "int j * select_timeout_ms cfg \<le> kbd_init_delay_ms cfg"
    and "X \<noteq> sentinel" and "tracker_ok s" and "resolves (down_hooks s) X"
    and "\<not> is_pressed s X"
  shows "fst (event_loop sc cfg (cycles X j 10) s) = Running
     \<and> is_pressed (snd (event_loop sc cfg (cycles X j 10) s)) X
     \<and> (\<forall>i. fired DownHooks X (calls (snd (event_loop sc cfg (take i (cycles X j 10)) s)))
             = fired DownHooks X (calls s))
     \<and> (\<forall>i. fired UpHooks X (calls (snd (event_loop sc cfg (take (Suc i) (cycles X j 10)) s)))
             = fired UpHooks X (calls s) + (if entries (up_hooks cfg) X = None then 0 else 1))"
proof -
  let ?es = "cycles X j 10"
  let ?c = "key_arrives X # replicate j quiet"
  let ?u = "fired UpHooks X (calls s) + (if entries (up_hooks cfg) X = None then 0 else 1)"
  have "0 \<le> int j * select_timeout_ms cfg" using assms(1) by simp
  with assms(2) have rep: "int j * select_timeout_ms cfg \<le> kbd_repeat_delay_ms cfg" by linarith
  \<comment> \<open>the first event\<close>
  obtain s1 where s1: "iteration sc cfg (key_arrives X) s = (Continue, s1)"
    using iteration_key(1) [OF assms(5) assms(1) assms(4) assms(6), of sc]
    by (cases "iteration sc cfg (key_arrives X) s") auto
  have "key_view s1 X = event_view (entries (up_hooks cfg) X \<noteq> None) (key_view s X)"
    using iteration_key(3) [OF assms(5) assms(1) assms(4) assms(6), of sc X] s1 by simp
  then have u1: "fired UpHooks X (calls s1) = ?u"
    using assms(7) by (simp add: event_view_def key_view_def)
  \<comment> \<open>the first cycle\<close>
  note cyc = event_loop_cycle [OF assms(5) assms(1) assms(4) assms(6), of sc j]
  obtain s2 where s2: "event_loop sc cfg ?c s = (Running, s2)"
    using cyc by (cases "event_loop sc cfg ?c s") auto
  have ev: "event_view (entries (up_hooks cfg) X \<noteq> None) (key_view s X)
      = (True, True, 0, ?u, fired DownHooks X (calls s))"
    using assms(7) by (simp add: event_view_def key_view_def)
  have "key_view s2 X = (True, True, 0 + int j * select_timeout_ms cfg, ?u, fired DownHooks X (calls s))"
    using cyc ev tick_pow_hold [OF assms(1), of 0 j True] assms(3) s2 by simp
  then have p2: "is_pressed s2 X" and u2: "fired UpHooks X (calls s2) = ?u"
    and d2: "fired DownHooks X (calls s2) = fired DownHooks X (calls s)"
    by (simp_all add: key_view_def)
  have ok2: "tracker_ok s2" using cyc s2 by simp
  \<comment> \<open>the nine cycles after it\<close>
  have split: "event_loop sc cfg ?es s = event_loop sc cfg (cycles X j 9) s2"
  proof -
    have "?es = ?c @ cycles X j 9" using cycles_Suc [of X j 9] by simp
    then show ?thesis by (simp only: event_loop_append s2) simp
  qed
  note rest = cycles_pressed [OF assms(1) rep assms(4) ok2 p2, of sc 9]
  have fin: "fst (event_loop sc cfg ?es s) = Running"
    and pf: "is_pressed (snd (event_loop sc cfg ?es s)) X"
    and uf: "fired UpHooks X (calls (snd (event_loop sc cfg ?es s))) = ?u"
    and df: "fired DownHooks X (calls (snd (event_loop sc cfg ?es s))) = fired DownHooks X (calls s)"
    using rest u2 d2 by (simp_all add: split)
  \<comment> \<open>the call log only grows, so every prefix lies between the ends\<close>
  have down: "fired DownHooks X (calls (snd (event_loop sc cfg (take i ?es) s))) = fired DownHooks X (calls s)" for i
    using event_loop_take_fired [of DownHooks X sc cfg i ?es s]
      event_loop_fired_mono [of DownHooks X s sc cfg "take i ?es"] df by simp
  have up: "fired UpHooks X (calls (snd (event_loop sc cfg (take (Suc i) ?es) s))) = ?u" for i
  proof -
    have hd: "?es = key_arrives X # (replicate j quiet @ cycles X j 9)"
      using cycles_Suc [of X j 9] by simp
    have "event_loop sc cfg (take (Suc i) ?es) s
        = event_loop sc cfg (take i (replicate j quiet @ cycles X j 9)) s1"
      by (subst hd) (simp add: s1)
    then have "?u \<le> fired UpHooks X (calls (snd (event_loop sc cfg (take (Suc i) ?es) s)))"
      using event_loop_fired_mono [of UpHooks X s1 sc cfg] u1 by simp
    moreover have "fired UpHooks X (calls (snd (event_loop sc cfg (take (Suc i) ?es) s))) \<le> ?u"
      using event_loop_take_fired [of UpHooks X sc cfg "Suc i" ?es s] uf by simp
    ultimately show ?thesis by simp
  qed
  show ?thesis using fin pf down up by blast
qed

theorem sustained_repeat_witness:
  "(let cfg = loop_config main_up_hooks 270 40 (- 1);
        s = initial_state main_down_hooks (0::nat) 0
    in 0 \<le> select_timeout_ms cfg
     \<and> int 2 * select_timeout_ms cfg \<le> kbd_repeat_delay_ms cfg div 2
     \<and> int 2 * select_timeout_ms cfg \<le> kbd_init_delay_ms cfg
     \<and> up_arrow \<noteq> sentinel \<and> tracker_ok s \<and> resolves (down_hooks s) up_arrow
     \<and> \<not> is_pressed s up_arrow
     \<and> fst (event_loop id cfg (cycles up_arrow 2 10) s) = Running
     \<and> is_pressed (snd (event_loop id cfg (cycles up_arrow 2 10) s)) up_arrow
     \<and> fired DownHooks up_arrow (calls (snd (event_loop id cfg (take 17 (cycles up_arrow 2 10)) s))) = 0
     \<and> fired UpHooks up_arrow (calls (snd (event_loop id cfg (take (Suc 16) (cycles up_arrow 2 10)) s))) = 1)"
proof -
  let ?cfg = "loop_config main_up_hooks 270 40 (- 1)"
  let ?s = "initial_state main_down_hooks (0::nat) 0"
  have h1: "0 \<le> select_timeout_ms ?cfg" by (simp add: loop_config_def effective_timeout_def)
  have h2: "int 2 * select_timeout_ms ?cfg \<le> kbd_repeat_delay_ms ?cfg div 2"
    by (simp add: loop_config_def effective_timeout_def)
  have h3: "int 2 * select_timeout_ms ?cfg \<le> kbd_init_delay_ms ?cfg"
    by (simp add: loop_config_def effective_timeout_def)
  have h4: "up_arrow \<noteq> sentinel" by (simp add: up_arrow_def sentinel_def)
  have h5: "tracker_ok ?s" by (simp add: tracker_ok_def initial_state_def)
  have h6: "resolves (down_hooks ?s) up_arrow"
    by (simp add: resolves_def initial_state_def main_down_hooks_def)
  have h7: "\<not> is_pressed ?s up_arrow" by (simp add: is_pressed_def initial_state_def)
  have c: "fired DownHooks up_arrow (calls ?s) = 0" "fired UpHooks up_arrow (calls ?s) = 0"
    by (simp_all add: fired_def initial_state_def)
  have r: "entries (up_hooks ?cfg) up_arrow \<noteq> None"
    by (simp add: loop_config_def main_up_hooks_def)
  note t = sustained_repeat [OF h1 h2 h3 h4 h5 h6 h7, of id]
  from t have "fired DownHooks up_arrow (calls (snd (event_loop id ?cfg (take 17 (cycles up_arrow 2 10)) ?s))) = 0"
    using c by simp
  moreover from t have "\<forall>i. fired UpHooks up_arrow
         (calls (snd (event_loop id ?cfg (take (Suc i) (cycles up_arrow 2 10)) ?s)))
       = fired UpHooks up_arrow (calls ?s) + (if entries (up_hooks ?cfg) up_arrow = None then 0 else 1)"
    by blast
  from spec [OF this, of 16]
  have "fired UpHooks up_arrow (calls (snd (event_loop id ?cfg (take (Suc 16) (cycles up_arrow 2 10)) ?s))) = 1"
    using c r by simp
  ultimately show ?thesis
    using t h1 h2 h3 h4 h5 h6 h7 unfolding Let_def by blast
qed

text \<open>
  With \<open>kbd_init_delay_ms = 10\<close>, \<open>kbd_repeat_delay_ms = 40\<close> and the derived timeout of
  10 ms, two timeouts after each arrival are half the repeat delay, and both callbacks
  of the key are called in each of the ten cycles.
\<close>

theorem sustained_repeat_counterexample:
  "int 2 * select_timeout_ms slow_config = kbd_repeat_delay_ms slow_config div 2
   \<and> fired DownHooks up_arrow (calls (snd (event_loop id slow_config (cycles up_arrow 2 10)
        (initial_state main_down_hooks (0::nat) 0)))) = 10
   \<and> fired UpHooks up_arrow (calls (snd (event_loop id slow_config (cycles up_arrow 2 10)
        (initial_state main_down_hooks (0::nat) 0)))) = 10"
proof -
  let ?s = "initial_state main_down_hooks (0::nat) 0"
  have T: "0 \<le> select_timeout_ms slow_config"
    by (simp add: slow_config_def loop_config_def effective_timeout_def)
  have k: "up_arrow \<noteq> sentinel" by (simp add: up_arrow_def sentinel_def)
  have ok: "tracker_ok ?s" by (simp add: tracker_ok_def initial_state_def)
  have rs: "resolves (down_hooks ?s) up_arrow"
    by (simp add: resolves_def initial_state_def main_down_hooks_def)
  have v0: "key_view ?s up_arrow = (False, True, 0, 0, 0)"
    by (simp add: key_view_def is_pressed_def initial_state_def fired_def)
  have reg: "entries (up_hooks slow_config) up_arrow \<noteq> None"
    by (simp add: slow_config_def loop_config_def main_up_hooks_def)
  have cyc: "cycle_view slow_config True 2 (False, f, d, u, n) = (False, True, 20, Suc u, Suc n)"
    for f d u n
    by (simp add: cycle_view_def eval_nat_numeral tick_view_def event_view_def slow_config_def
        loop_config_def effective_timeout_def)
  have "(cycle_view slow_config True 2 ^^ Suc m) (False, f, d, u, n)
      = (False, True, 20, u + Suc m, n + Suc m)" for m f d u n
    by (induction m arbitrary: f d u n) (simp_all add: cyc)
  from this [of 9 True 0 0 0]
  have "(cycle_view slow_config True 2 ^^ 10) (False, True, 0, 0, 0) = (False, True, 20, 10, 10)"
    by simp
  then have "key_view (snd (event_loop id slow_config (cycles up_arrow 2 10) ?s)) up_arrow
      = (False, True, 20, 10, 10)"
    using event_loop_cycles [OF T k ok rs, of id 2 10] reg v0 by simp
  then show ?thesis
    by (simp add: key_view_def slow_config_def loop_config_def effective_timeout_def)
qed

section \<open>The termination sentinel\<close>

text \<open>
  C4: when the read of an iteration returns the sentinel (so none of the calls up to the
  read has failed), the loop ends in that iteration, whatever inputs would follow: it
  returns, unless restoring the terminal raises. No callback is called and \<open>pressed\<close>,
  \<open>is_first_keypress\<close>, \<open>current_delay_ms\<close> and the release table are as before,
  whichever keys are pressed.
\<close>

theorem sentinel_exits:
  assumes "arrival e = Some sentinel"
    and "failing e \<inter> {Tcgetattr, SetNonblocking, Setcbreak, Select, Read} = {}"
    and "0 \<le> select_timeout_ms cfg"
  shows "event_loop sc cfg (e # es) s = event_loop sc cfg [e] s
     \<and> fst (event_loop sc cfg (e # es) s) =
         (if Tcsetattr \<in> failing e then Raised TermiosError
          else if SetBlocking \<in> failing e then Raised OSError else Returned)
     \<and> calls (snd (event_loop sc cfg (e # es) s)) = calls s
     \<and> pressed (snd (event_loop sc cfg (e # es) s)) = pressed s
     \<and> is_first_keypress (snd (event_loop sc cfg (e # es) s)) = is_first_keypress s
     \<and> current_delay_ms (snd (event_loop sc cfg (e # es) s)) = current_delay_ms s
     \<and> down_hooks (snd (event_loop sc cfg (e # es) s)) = down_hooks s"
proof -
  have g: "guarded sc cfg e s' = (Break, s'\<lparr>term_attrs := sc (term_attrs s')\<rparr>)" for s'
    using assms by (simp add: guarded_def Let_def)
  show ?thesis
    using assms(2) by (simp add: iteration_def g Let_def)
qed

theorem sentinel_exits_witness:
  "arrival (key_arrives sentinel) = Some sentinel
   \<and> failing (key_arrives sentinel) \<inter> {Tcgetattr, SetNonblocking, Setcbreak, Select, Read} = {}
   \<and> 0 \<le> select_timeout_ms (loop_config main_up_hooks 270 40 (- 1))
   \<and> fst (event_loop id (loop_config main_up_hooks 270 40 (- 1))
        [key_arrives sentinel, key_arrives up_arrow, quiet]
        (key_event main_up_hooks down_arrow (initial_state main_down_hooks (0::nat) 0))) = Returned
   \<and> calls (snd (event_loop id (loop_config main_up_hooks 270 40 (- 1))
        [key_arrives sentinel, key_arrives up_arrow, quiet]
        (key_event main_up_hooks down_arrow (initial_state main_down_hooks (0::nat) 0))))
      = [(UpHooks, down_arrow, Print ''Down pressed'')]
   \<and> is_pressed (snd (event_loop id (loop_config main_up_hooks 270 40 (- 1))
        [key_arrives sentinel, key_arrives up_arrow, quiet]
        (key_event main_up_hooks down_arrow (initial_state main_down_hooks (0::nat) 0)))) down_arrow"
proof -
  let ?cfg = "loop_config main_up_hooks 270 40 (- 1)"
  let ?s = "key_event main_up_hooks down_arrow (initial_state main_down_hooks (0::nat) 0)"
  have h1: "arrival (key_arrives sentinel) = Some sentinel" by (simp add: key_arrives_def)
  have h2: "failing (key_arrives sentinel) \<inter> {Tcgetattr, SetNonblocking, Setcbreak, Select, Read} = {}"
    by (simp add: key_arrives_def)
  have h3: "0 \<le> select_timeout_ms ?cfg" by (simp add: loop_config_def effective_timeout_def)
  have c: "calls ?s = [(UpHooks, down_arrow, Print ''Down pressed'')]"
    by (simp add: key_event_def initial_state_def main_up_hooks_def is_pressed_def Let_def
        up_arrow_def down_arrow_def)
  have p: "pressed ?s = [(down_arrow, True)]"
    by (simp add: key_event_def initial_state_def main_up_hooks_def is_pressed_def Let_def
        up_arrow_def down_arrow_def)
  have f: "failing (key_arrives sentinel) = {}" by (simp add: key_arrives_def)
  note t = sentinel_exits [OF h1 h2 h3, of id "[key_arrives up_arrow, quiet]" ?s]
  have pe: "pressed (snd (event_loop id ?cfg [key_arrives sentinel, key_arrives up_arrow, quiet] ?s)) = pressed ?s"
    using t by blast
  have "is_pressed (snd (event_loop id ?cfg [key_arrives sentinel, key_arrives up_arrow, quiet] ?s)) down_arrow"
    unfolding is_pressed_def pe p by simp
  moreover have "fst (event_loop id ?cfg [key_arrives sentinel, key_arrives up_arrow, quiet] ?s) =
      (if Tcsetattr \<in> failing (key_arrives sentinel) then Raised TermiosError
       else if SetBlocking \<in> failing (key_arrives sentinel) then Raised OSError else Returned)"
    using t by blast
  then have "fst (event_loop id ?cfg [key_arrives sentinel, key_arrives up_arrow, quiet] ?s) = Returned"
    by (simp only: f empty_iff if_False)
  moreover have "calls (snd (event_loop id ?cfg [key_arrives sentinel, key_arrives up_arrow, quiet] ?s))
      = calls ?s"
    using t by blast
  then have "calls (snd (event_loop id ?cfg [key_arrives sentinel, key_arrives up_arrow, quiet] ?s))
      = [(UpHooks, down_arrow, Print ''Down pressed'')]"
    by (simp only: c)
  ultimately show ?thesis
    using h1 h2 h3 by blast
qed

section \<open>Restoring the terminal\<close>




section \<open>Keys without a registered callback\<close>

text \<open>
  C6: for a key registered in neither table, with the release table a \<^verbatim>\<open>defaultdict\<close>
  whose factory makes the callback that does nothing (lines 96-97): an arriving key calls
  nothing (line 49), and \<^verbatim>\<open>down_hooks[k]()\<close> raises nothing, calls only that default
  callback and prints nothing, so the timeout branch for the key completes, releasing
  the key when its delay has run out.
\<close>

theorem unregistered_hooks_noop:
  assumes "entries up k = None" and "entries (down_hooks s) k = None"
    and "default_factory (down_hooks s) = Some Noop"
  shows "calls (key_event up k s) = calls s
     \<and> call_down k s =
         (None, s\<lparr>down_hooks := (down_hooks s)\<lparr>entries := (entries (down_hooks s))(k \<mapsto> Noop)\<rparr>,
                  calls := calls s @ [(DownHooks, k, Noop)]\<rparr>)
     \<and> fst (tick_key cfg k s) = None
     \<and> printed (calls (snd (tick_key cfg k s))) = printed (calls s)
     \<and> (is_pressed s k \<and> is_first_keypress s k
          \<and> kbd_init_delay_ms cfg < current_delay_ms s k + select_timeout_ms cfg
        \<longrightarrow> \<not> is_pressed (snd (tick_key cfg k s)) k)"
  using assms
  by (auto simp: key_event_def call_down_def getitem_def tick_key_def Let_def printed_append
      is_pressed_at pressed_at_update)

theorem unregistered_hooks_noop_witness:
  "(let s = key_event main_up_hooks ''q'' (initial_state main_down_hooks (0::nat) 0);
        cfg = loop_config main_up_hooks 5 40 (- 1)
    in entries main_up_hooks ''q'' = None \<and> entries (down_hooks s) ''q'' = None
     \<and> default_factory (down_hooks s) = Some Noop
     \<and> is_pressed s ''q'' \<and> is_first_keypress s ''q''
     \<and> kbd_init_delay_ms cfg < current_delay_ms s ''q'' + select_timeout_ms cfg
     \<and> calls s = []
     \<and> fst (tick_key cfg ''q'' s) = None
     \<and> printed (calls (snd (tick_key cfg ''q'' s))) = []
     \<and> \<not> is_pressed (snd (tick_key cfg ''q'' s)) ''q'')"
proof -
  let ?s0 = "initial_state main_down_hooks (0::nat) 0"
  let ?s = "key_event main_up_hooks ''q'' ?s0"
  let ?cfg = "loop_config main_up_hooks 5 40 (- 1)"
  have h1: "entries main_up_hooks ''q'' = None"
    by (simp add: main_up_hooks_def up_arrow_def down_arrow_def)
  have h2: "entries (down_hooks ?s) ''q'' = None"
    by (simp add: key_event_def h1 is_pressed_def initial_state_def Let_def
        main_down_hooks_def up_arrow_def down_arrow_def)
  have h3: "default_factory (down_hooks ?s) = Some Noop"
    by (simp add: key_event_def h1 is_pressed_def initial_state_def Let_def main_down_hooks_def)
  have p: "is_pressed ?s ''q''" "is_first_keypress ?s ''q''"
    "kbd_init_delay_ms ?cfg < current_delay_ms ?s ''q'' + select_timeout_ms ?cfg"
    by (simp_all add: key_event_def h1 is_pressed_def initial_state_def Let_def
        loop_config_def effective_timeout_def)
  note t = unregistered_hooks_noop [OF h1 h2 h3, of ?cfg]
  have c: "calls ?s = []"
    by (simp add: key_event_def h1 is_pressed_def initial_state_def Let_def)
  from t have "printed (calls (snd (tick_key ?cfg ''q'' ?s))) = printed (calls ?s)" by blast
  then have pr: "printed (calls (snd (tick_key ?cfg ''q'' ?s))) = []" by (simp only: c printed.simps)
  from t p have "fst (tick_key ?cfg ''q'' ?s) = None" "\<not> is_pressed (snd (tick_key ?cfg ''q'' ?s)) ''q''"
    by blast+
  then show ?thesis
    unfolding Let_def using h1 h2 h3 p c pr by blast
qed

text \<open>
  The release lookup has no membership test like line 49: with a plain \<^verbatim>\<open>dict\<close> that does
  not hold the key it raises \<^verbatim>\<open>KeyError\<close> before the key is marked released.
\<close>

lemma release_plain_dict_raises:
  assumes "is_pressed s k" and "entries (down_hooks s) k = None"
    and "default_factory (down_hooks s) = None"
    and "(if is_first_keypress s k then kbd_init_delay_ms cfg else kbd_repeat_delay_ms cfg)
           < current_delay_ms s k + select_timeout_ms cfg"
  shows "fst (tick_key cfg k s) = Some KeyError \<and> is_pressed (snd (tick_key cfg k s)) k"
  using assms
  by (auto simp: call_down_def getitem_def tick_key_def Let_def is_pressed_at split: if_splits)

section \<open>The delay counter\<close>

text \<open>
  C9: an iteration in which the timeout passes leaves the delay, the pressed flag and the
  first-keypress flag of every key that is not pressed unchanged, and (when no release
  lookup can raise) adds \<open>select_timeout_ms\<close> to the delay of exactly the pressed keys;
  an iteration that reads the key, not the sentinel, sets the key's delay to 0.
\<close>

theorem delay_only_while_pressed:
  "(arrival e = None \<and> \<not> is_pressed s k \<longrightarrow>
      current_delay_ms (snd (iteration sc cfg e s)) k = current_delay_ms s k
      \<and> is_pressed (snd (iteration sc cfg e s)) k = is_pressed s k
      \<and> is_first_keypress (snd (iteration sc cfg e s)) k = is_first_keypress s k)
   \<and> (tracker_ok s \<and> 0 \<le> select_timeout_ms cfg \<longrightarrow>
        current_delay_ms (snd (iteration sc cfg quiet s)) k =
          (if is_pressed s k then current_delay_ms s k + select_timeout_ms cfg
           else current_delay_ms s k))
   \<and> (arrival e = Some k \<and> k \<noteq> sentinel \<and> 0 \<le> select_timeout_ms cfg
        \<and> failing e \<inter> {Tcgetattr, SetNonblocking, Setcbreak, Select, Read} = {} \<longrightarrow>
        current_delay_ms (snd (iteration sc cfg e s)) k = 0)"
proof -
  have a: "current_delay_ms (snd (iteration sc cfg e s)) k = current_delay_ms s k
      \<and> is_pressed (snd (iteration sc cfg e s)) k = is_pressed s k
      \<and> is_first_keypress (snd (iteration sc cfg e s)) k = is_first_keypress s k"
    if "arrival e = None" "\<not> is_pressed s k"
    using iteration_unpressed [of s k e sc cfg] that by (simp add: key_view_def)
  have b: "current_delay_ms (snd (iteration sc cfg quiet s)) k =
          (if is_pressed s k then current_delay_ms s k + select_timeout_ms cfg
           else current_delay_ms s k)"
    if "tracker_ok s" "0 \<le> select_timeout_ms cfg"
    using iteration_quiet(3) [OF that, of sc k]
    by (auto simp: key_view_def tick_view_def Let_def split: if_splits)
  have c: "current_delay_ms (snd (iteration sc cfg e s)) k = 0"
    if "arrival e = Some k" "k \<noteq> sentinel" "0 \<le> select_timeout_ms cfg"
      "failing e \<inter> {Tcgetattr, SetNonblocking, Setcbreak, Select, Read} = {}"
  proof -
    have "current_delay_ms (key_event (up_hooks cfg) k s') k = 0" for s' :: "'a state"
      by (simp add: key_event_def Let_def split: option.splits)
    then show ?thesis
      using that by (auto simp: iteration_def guarded_def Let_def)
  qed
  from a b c show ?thesis by blast
qed

theorem delay_only_while_pressed_witness:
  "(let cfg = loop_config main_up_hooks 270 40 (- 1);
        s = key_event main_up_hooks up_arrow (initial_state main_down_hooks (0::nat) 0)
    in arrival quiet = None \<and> \<not> is_pressed s down_arrow
     \<and> tracker_ok s \<and> 0 \<le> select_timeout_ms cfg
     \<and> arrival (key_arrives up_arrow) = Some up_arrow \<and> up_arrow \<noteq> sentinel
     \<and> failing (key_arrives up_arrow) \<inter> {Tcgetattr, SetNonblocking, Setcbreak, Select, Read} = {}
     \<and> current_delay_ms (snd (iteration id cfg quiet s)) down_arrow = 0
     \<and> \<not> is_pressed (snd (iteration id cfg quiet s)) down_arrow
     \<and> current_delay_ms (snd (iteration id cfg quiet s)) up_arrow = 10
     \<and> current_delay_ms (snd (iteration id cfg (key_arrives up_arrow) (snd (iteration id cfg quiet s)))) up_arrow = 0)"
proof -
  let ?cfg = "loop_config main_up_hooks 270 40 (- 1)"
  let ?s = "key_event main_up_hooks up_arrow (initial_state main_down_hooks (0::nat) 0)"
  have ev: "entries main_up_hooks up_arrow = Some (Print ''Up pressed'')"
    by (simp add: main_up_hooks_def up_arrow_def down_arrow_def)
  have p: "pressed ?s = [(up_arrow, True)]" and d: "current_delay_ms ?s = (\<lambda>_. 0)"
    and dh: "down_hooks ?s = main_down_hooks"
    by (simp_all add: key_event_def ev is_pressed_def initial_state_def Let_def fun_eq_iff)
  have h1: "arrival quiet = None" by (simp add: quiet_def)
  have h2: "\<not> is_pressed ?s down_arrow"
    unfolding is_pressed_def p by (simp add: up_arrow_def down_arrow_def)
  have h2': "is_pressed ?s up_arrow"
    unfolding is_pressed_def p by simp
  have h3: "tracker_ok ?s"
    unfolding tracker_ok_def p dh by (simp add: resolves_def main_down_hooks_def)
  have h4: "0 \<le> select_timeout_ms ?cfg" and T: "select_timeout_ms ?cfg = 10"
    by (simp_all add: loop_config_def effective_timeout_def)
  have h5: "arrival (key_arrives up_arrow) = Some up_arrow" by (simp add: key_arrives_def)
  have h6: "up_arrow \<noteq> sentinel" by (simp add: up_arrow_def sentinel_def)
  have h7: "failing (key_arrives up_arrow) \<inter> {Tcgetattr, SetNonblocking, Setcbreak, Select, Read} = {}"
    by (simp add: key_arrives_def)
  note a = delay_only_while_pressed [of quiet ?s down_arrow id ?cfg]
  note b = delay_only_while_pressed [of quiet ?s up_arrow id ?cfg]
  note c = delay_only_while_pressed [of "key_arrives up_arrow" "snd (iteration id ?cfg quiet ?s)" up_arrow id ?cfg]
  have r1: "current_delay_ms (snd (iteration id ?cfg quiet ?s)) down_arrow = 0"
    and r2: "\<not> is_pressed (snd (iteration id ?cfg quiet ?s)) down_arrow"
    using a h1 h2 d by simp_all
  have r3: "current_delay_ms (snd (iteration id ?cfg quiet ?s)) up_arrow = 10"
    using b h3 h4 h2' d T by simp
  have r4: "current_delay_ms (snd (iteration id ?cfg (key_arrives up_arrow) (snd (iteration id ?cfg quiet ?s)))) up_arrow = 0"
    using c h4 h5 h6 h7 by blast
  show ?thesis
    unfolding Let_def using h1 h2 h3 h4 h5 h6 h7 r1 r2 r3 r4 by blast
qed

section \<open>Released keys\<close>

text \<open>
  C10: in every state \<^verbatim>\<open>select_key_events\<close> reaches, on any inputs and whether or not an
  exception ended the loop, a key that is not pressed has \<open>is_first_keypress\<close> true;
  and its next arrival leaves it true, so that the next hold is measured against
  \<open>kbd_init_delay_ms\<close>.
\<close>

theorem released_is_first:
  "\<not> is_pressed (snd (select_key_events sc up down i r t es m fl)) k \<Longrightarrow>
     is_first_keypress (snd (select_key_events sc up down i r t es m fl)) k
     \<and> is_first_keypress (key_event up k (snd (select_key_events sc up down i r t es m fl))) k"
proof -
  assume np: "\<not> is_pressed (snd (select_key_events sc up down i r t es m fl)) k"
  have "\<forall>k. \<not> is_pressed (initial_state down m fl) k \<longrightarrow> is_first_keypress (initial_state down m fl) k"
    by (simp add: initial_state_def)
  from event_loop_first [OF this] np
  have "is_first_keypress (snd (select_key_events sc up down i r t es m fl)) k"
    by (simp add: select_key_events_def)
  moreover have "is_first_keypress (key_event up k (snd (select_key_events sc up down i r t es m fl))) k"
    using np by (simp add: key_event_def is_pressed_at Let_def split: option.splits)
  ultimately show ?thesis by simp
qed

theorem released_is_first_witness:
  "\<not> is_pressed (snd (select_key_events id main_up_hooks main_down_hooks 10 40 (- 1)
        [key_arrives up_arrow, quiet, key_arrives up_arrow, quiet, quiet, quiet, quiet, quiet] (0::nat) 0)) up_arrow
   \<and> is_first_keypress (snd (select_key_events id main_up_hooks main_down_hooks 10 40 (- 1)
        [key_arrives up_arrow, quiet, key_arrives up_arrow, quiet, quiet, quiet, quiet, quiet] (0::nat) 0)) up_arrow"
proof -
  have "\<not> is_pressed (snd (select_key_events id main_up_hooks main_down_hooks 10 40 (- 1)
        [key_arrives up_arrow, quiet, key_arrives up_arrow, quiet, quiet, quiet, quiet, quiet] (0::nat) 0)) up_arrow"
    by (simp add: select_key_events_def loop_config_def effective_timeout_def initial_state_def
        main_up_hooks_def main_down_hooks_def key_arrives_def quiet_def iteration_def guarded_def
        key_event_def tick_key_def call_down_def getitem_def is_pressed_def sentinel_def up_arrow_def
        down_arrow_def Let_def)
  then show ?thesis
    using released_is_first [of id main_up_hooks main_down_hooks 10 40 "- 1" _ 0 0 up_arrow] by blast
qed

section \<open>Calibration\<close>





end
